theory Spec2Isabelle
  imports Main
begin

section \<open>The VTK legacy file checker \<^verbatim>\<open>validate_vtk.py\<close>\<close>

text \<open>
  The script reads a file into its list of lines, checks the version header, looks for
  comment lines inside the \<^verbatim>\<open>CELL_DATA\<close> section and for five section keywords
  among the first twenty lines, and returns a list of errors and a list of warnings.
  Its driver \<^verbatim>\<open>main\<close> runs the check over the files named on the command line, prints
  a report and turns the total number of errors into the exit status.

  Text is modelled as \<^typ>\<open>string\<close>: one \<^typ>\<open>char\<close> stands for one code point below
  256, which covers the ASCII files the tool is written for. Python's integers are
  \<^typ>\<open>int\<close>. An exception raised by the script is a value \<open>Inl e\<close> of the result.
\<close>

subsection \<open>Python's string and list primitives\<close>

datatype py_error = IndexError | OSError

text \<open>\<^verbatim>\<open>s.startswith(p)\<close>.\<close>

definition startswith :: "string \<Rightarrow> string \<Rightarrow> bool" where
  "startswith s p = (take (length p) s = p)"

text \<open>
  \<^verbatim>\<open>c.isspace()\<close> on the code points below 256: tab, line feed, vertical tab, form
  feed, carriage return, the four separators \<open>0x1C\<close> to \<open>0x1F\<close>, space, next line
  \<open>0x85\<close> and no-break space \<open>0xA0\<close>.
\<close>

definition isspace :: "char \<Rightarrow> bool" where
  "isspace c =
     (let n = (of_char c :: nat)
      in (9 \<le> n \<and> n \<le> 13) \<or> (28 \<le> n \<and> n \<le> 32) \<or> n = 133 \<or> n = 160)"

text \<open>\<^verbatim>\<open>s.strip()\<close>: leading and trailing whitespace removed.\<close>

definition strip :: "string \<Rightarrow> string" where
  "strip s = rev (dropWhile isspace (rev (dropWhile isspace s)))"

text \<open>\<^verbatim>\<open>sub in s\<close> on strings: \<open>sub\<close> occurs in \<open>s\<close> at some position.\<close>

fun py_in :: "string \<Rightarrow> string \<Rightarrow> bool" where
  "py_in sub [] = (sub = [])"
| "py_in sub (c # cs) = (startswith (c # cs) sub \<or> py_in sub cs)"

text \<open>
  \<^verbatim>\<open>xs[i]\<close>: a negative index counts from the end, an index out of range raises
  \<^verbatim>\<open>IndexError\<close>.
\<close>

definition py_getitem :: "'a list \<Rightarrow> int \<Rightarrow> py_error + 'a" where
  "py_getitem xs i =
     (if 0 \<le> i \<and> i < int (length xs) then Inr (xs ! nat i)
      else if - int (length xs) \<le> i \<and> i < 0 then Inr (xs ! nat (int (length xs) + i))
      else Inl IndexError)"

text \<open>\<^verbatim>\<open>str(n)\<close> on integers: the decimal digits, after a minus sign below zero.\<close>

definition digit_char :: "nat \<Rightarrow> char" where
  "digit_char d = char_of (48 + d)"

fun str_nat :: "nat \<Rightarrow> string" where
  "str_nat n = (if n < 10 then [digit_char n] else str_nat (n div 10) @ [digit_char (n mod 10)])"

declare str_nat.simps [simp del]

definition str_int :: "int \<Rightarrow> string" where
  "str_int i = (if i < 0 then CHR ''-'' # str_nat (nat (- i)) else str_nat (nat i))"

subsection \<open>The file system and reading a file\<close>

text \<open>
  A path names nothing, or a file whose text can be read, or something that exists
  and that \<^verbatim>\<open>open\<close> refuses with an \<^verbatim>\<open>OSError\<close> (a directory, a file without
  permission). The text of a file is what \<^verbatim>\<open>open(filepath, 'r')\<close> delivers, line ends
  already translated to the line feed.
\<close>

datatype fs_entry = File string | Unreadable

type_synonym filesystem = "string \<Rightarrow> fs_entry option"

text \<open>
  \<^verbatim>\<open>f.readlines()\<close>: the text cut after every line feed; each line keeps its line
  feed, and a last line without one is kept as it is.
\<close>

fun readlines_from :: "string \<Rightarrow> string \<Rightarrow> string list" where
  "readlines_from cur [] = (if cur = [] then [] else [cur])"
| "readlines_from cur (c # cs) =
     (if c = CHR 0x0A then (cur @ [c]) # readlines_from [] cs
      else readlines_from (cur @ [c]) cs)"

definition readlines :: "string \<Rightarrow> string list" where
  "readlines text = readlines_from [] text"

subsection \<open>\<^verbatim>\<open>validate_vtk_file\<close>\<close>

text \<open>
  The header check:
  \<^verbatim>\<open>if not lines[0].startswith("# vtk DataFile Version"): errors.append(...)\<close>
\<close>

definition header_error :: string where
  "header_error = ''Missing or invalid VTK version header''"

definition check_header :: "string list \<Rightarrow> string list \<Rightarrow> py_error + string list" where
  "check_header lines errors =
     (case py_getitem lines 0 of
        Inl e \<Rightarrow> Inl e
      | Inr first \<Rightarrow>
          if \<not> startswith first ''# vtk DataFile Version''
          then Inr (errors @ [header_error])
          else Inr errors)"

text \<open>
  The search for the section:
  \<^verbatim>\<open>cell_data_idx = -1
  for i, line in enumerate(lines):
      if line.startswith("CELL_DATA"):
          cell_data_idx = i
          break\<close>
  \<open>cell_data_scan i lines\<close> is the loop standing at index \<open>i\<close> with \<open>lines\<close> still
  to visit.
\<close>

fun cell_data_scan :: "int \<Rightarrow> string list \<Rightarrow> int" where
  "cell_data_scan i [] = - 1"
| "cell_data_scan i (line # rest) =
     (if startswith line ''CELL_DATA'' then i else cell_data_scan (i + 1) rest)"

definition find_cell_data :: "string list \<Rightarrow> int" where
  "find_cell_data lines = cell_data_scan 0 lines"

text \<open>
  The body of the comment loop at index \<open>i\<close>:
  \<^verbatim>\<open>line = lines[i].strip()
  if line.startswith("#") and not lines[i-1].strip().startswith("LOOKUP_TABLE"):
      errors.append(f"Invalid comment in CELL_DATA section at line {i+1}: {line[:50]}")\<close>
  The operator \<^verbatim>\<open>and\<close> evaluates \<^verbatim>\<open>lines[i-1]\<close> only when the line starts with
  \<^verbatim>\<open>#\<close>.
\<close>

definition comment_error :: "int \<Rightarrow> string \<Rightarrow> string" where
  "comment_error n excerpt =
     ''Invalid comment in CELL_DATA section at line '' @ str_int n @ '': '' @ excerpt"

definition comment_step :: "string list \<Rightarrow> int \<Rightarrow> string list \<Rightarrow> py_error + string list" where
  "comment_step lines i errors =
     (case py_getitem lines i of
        Inl e \<Rightarrow> Inl e
      | Inr raw \<Rightarrow>
          let line = strip raw in
          if startswith line ''#''
          then (case py_getitem lines (i - 1) of
                  Inl e \<Rightarrow> Inl e
                | Inr prev \<Rightarrow>
                    if \<not> startswith (strip prev) ''LOOKUP_TABLE''
                    then Inr (errors @ [comment_error (i + 1) (take 50 line)])
                    else Inr errors)
          else Inr errors)"

text \<open>\<^verbatim>\<open>for i in range(cell_data_idx, len(lines)): ...\<close> over the indices still to visit.\<close>

fun comment_loop :: "string list \<Rightarrow> int list \<Rightarrow> string list \<Rightarrow> py_error + string list" where
  "comment_loop lines [] errors = Inr errors"
| "comment_loop lines (i # rest) errors =
     (case comment_step lines i errors of
        Inl e \<Rightarrow> Inl e
      | Inr errors' \<Rightarrow> comment_loop lines rest errors')"

definition check_cell_data :: "string list \<Rightarrow> string list \<Rightarrow> py_error + string list" where
  "check_cell_data lines errors =
     (let cell_data_idx = find_cell_data lines
      in if cell_data_idx \<ge> 0
         then comment_loop lines [cell_data_idx .. int (length lines) - 1] errors
         else Inr errors)"

text \<open>
  The required sections:
  \<^verbatim>\<open>for line in lines[:20]:
      for section in required_sections:
          if section in line:
              found_sections.append(section)
  for section in required_sections:
      if section not in found_sections:
          warnings.append(f"Section '{section}' not found in first 20 lines")\<close>
\<close>

definition required_sections :: "string list" where
  "required_sections = [''ASCII'', ''DATASET'', ''POINTS'', ''CELLS'', ''CELL_TYPES'']"

definition section_warning :: "string \<Rightarrow> string" where
  "section_warning section =
     ''Section '' @ [CHR 0x27] @ section @ [CHR 0x27] @ '' not found in first 20 lines''"

definition find_sections :: "string list \<Rightarrow> string list" where
  "find_sections lines =
     foldl (\<lambda>found line.
              foldl (\<lambda>found section. if py_in section line then found @ [section] else found)
                found required_sections)
       [] (take 20 lines)"

definition check_sections :: "string list \<Rightarrow> string list \<Rightarrow> string list" where
  "check_sections lines warnings =
     (let found_sections = find_sections lines
      in foldl (\<lambda>warnings section.
                  if section \<notin> set found_sections
                  then warnings @ [section_warning section]
                  else warnings)
           warnings required_sections)"

text \<open>The whole function.\<close>

definition validate_vtk_file :: "filesystem \<Rightarrow> string \<Rightarrow> py_error + (string list \<times> string list)" where
  "validate_vtk_file fs filepath =
     (case fs filepath of
        None \<Rightarrow> Inr ([''File not found: '' @ filepath], [])
      | Some Unreadable \<Rightarrow> Inl OSError
      | Some (File text) \<Rightarrow>
          let lines = readlines text in
          (case check_header lines [] of
             Inl e \<Rightarrow> Inl e
           | Inr errors \<Rightarrow>
               (case check_cell_data lines errors of
                  Inl e \<Rightarrow> Inl e
                | Inr errors' \<Rightarrow> Inr (errors', check_sections lines []))))"

subsection \<open>\<^verbatim>\<open>main\<close>\<close>

text \<open>
  The state of a run: what has been printed, one entry for each call of \<^verbatim>\<open>print\<close>,
  and the counter \<^verbatim>\<open>total_errors\<close>. The four pictographs of the report lie outside
  the code points below 256 and are written as their UTF-8 bytes.
\<close>

record run_state =
  stdout :: "string list"
  total_errors :: int

definition cross_mark :: string where
  "cross_mark = [CHR 0xE2, CHR 0x9D, CHR 0x8C]"

definition check_mark :: string where
  "check_mark = [CHR 0xE2, CHR 0x9C, CHR 0x85]"

definition warning_sign :: string where
  "warning_sign = [CHR 0xE2, CHR 0x9A, CHR 0xA0, CHR 0xEF, CHR 0xB8, CHR 0x8F]"

definition bullet :: string where
  "bullet = [CHR 0xE2, CHR 0x80, CHR 0xA2]"

definition print :: "string \<Rightarrow> run_state \<Rightarrow> run_state" where
  "print s st = st\<lparr>stdout := stdout st @ [s]\<rparr>"

text \<open>\<^verbatim>\<open>for x in xs: print(f"   \<bullet> {x}")\<close>\<close>

definition print_items :: "string list \<Rightarrow> run_state \<Rightarrow> run_state" where
  "print_items xs st = foldl (\<lambda>st x. print (''   '' @ bullet @ '' '' @ x) st) st xs"

text \<open>The body of the loop over \<^verbatim>\<open>sys.argv[1:]\<close> for one path.\<close>

definition report_file :: "filesystem \<Rightarrow> string \<Rightarrow> run_state \<Rightarrow> py_error + run_state" where
  "report_file fs filepath st0 =
     (let st1 = print (CHR 0x0A # ''Validating: '' @ filepath) st0;
          st2 = print (replicate (12 + length filepath) CHR ''-'') st1
      in case validate_vtk_file fs filepath of
           Inl e \<Rightarrow> Inl e
         | Inr (errors, warnings) \<Rightarrow>
             let st3 =
                   (if errors \<noteq> []
                    then let st = print (cross_mark @ '' ERRORS ('' @ str_int (int (length errors)) @ ''):'') st2;
                             st = print_items errors st
                         in st\<lparr>total_errors := total_errors st + int (length errors)\<rparr>
                    else print (check_mark @ '' No errors found'') st2);
                 st4 =
                   (if warnings \<noteq> []
                    then let st = print (warning_sign @ ''  WARNINGS ('' @ str_int (int (length warnings)) @ ''):'') st3
                         in print_items warnings st
                    else st3)
             in Inr (print (''Status: '' @ (if errors \<noteq> [] then ''INVALID'' else ''VALID'')) st4))"

fun report_files :: "filesystem \<Rightarrow> string list \<Rightarrow> run_state \<Rightarrow> py_error + run_state" where
  "report_files fs [] st = Inr st"
| "report_files fs (filepath # rest) st =
     (case report_file fs filepath st of
        Inl e \<Rightarrow> Inl e
      | Inr st' \<Rightarrow> report_files fs rest st')"

text \<open>
  \<^verbatim>\<open>sys.exit(main())\<close>: the result is what was printed and the exit status of the
  process, or the exception that ended the run. Without a file argument the usage line
  is printed and \<^verbatim>\<open>sys.exit(1)\<close> ends the run.
\<close>

definition main :: "filesystem \<Rightarrow> string list \<Rightarrow> py_error + (string list \<times> int)" where
  "main fs argv =
     (if length argv < 2
      then Inr ([''Usage: python3 validate_vtk.py <vtk_file> [vtk_file2] ...''], 1)
      else
        case report_files fs (drop 1 argv) \<lparr>stdout = [], total_errors = 0\<rparr> of
          Inl e \<Rightarrow> Inl e
        | Inr st \<Rightarrow>
            let st = print (CHR 0x0A # replicate 50 CHR ''='') st;
                st = print (''Total files validated: '' @ str_int (int (length (drop 1 argv)))) st;
                st = print (''Total errors: '' @ str_int (total_errors st)) st;
                st = print (''Overall result: '' @ (if total_errors st > 0 then ''FAILED'' else ''PASSED'')) st
            in Inr (stdout st, if total_errors st > 0 then 1 else 0))"

subsection \<open>Notions used in the statements\<close>

text \<open>
  The lookback of the comment check as the specification words it: the line before
  line \<open>i\<close>, stripped, starts with \<^verbatim>\<open>LOOKUP_TABLE\<close>; line 0 has no line before it, and
  the answer there is no.
\<close>

definition prev_is_lookup_table :: "string list \<Rightarrow> nat \<Rightarrow> bool" where
  "prev_is_lookup_table lines i =
     (0 < i \<and> startswith (strip (lines ! (i - 1))) ''LOOKUP_TABLE'')"

text \<open>Line \<open>i\<close> (counted from 0) is a comment line that the lookback does not excuse.\<close>

definition is_violation :: "string list \<Rightarrow> nat \<Rightarrow> bool" where
  "is_violation lines i =
     (startswith (strip (lines ! i)) ''#'' \<and> \<not> prev_is_lookup_table lines i)"

text \<open>The message the script builds for line \<open>i\<close> (counted from 0).\<close>

definition comment_error_at :: "string list \<Rightarrow> nat \<Rightarrow> string" where
  "comment_error_at lines i = comment_error (int i + 1) (take 50 (strip (lines ! i)))"

text \<open>An error is one of the comment check, and one that names line number \<open>n\<close>.\<close>

definition is_comment_error :: "string \<Rightarrow> bool" where
  "is_comment_error e = startswith e ''Invalid comment in CELL_DATA section at line ''"

definition names_line :: "int \<Rightarrow> string \<Rightarrow> bool" where
  "names_line n e =
     startswith e (''Invalid comment in CELL_DATA section at line '' @ str_int n @ '': '')"

text \<open>A keyword occurs in a line: the line is some text, the keyword, some text.\<close>

definition occurs_in :: "string \<Rightarrow> string \<Rightarrow> bool" where
  "occurs_in keyword line = (\<exists>before after. line = before @ keyword @ after)"

text \<open>The sum of the numbers of errors of the results of a run.\<close>

definition error_total :: "(string list \<times> string list) list \<Rightarrow> int" where
  "error_total results = sum_list (map (\<lambda>(errors, warnings). int (length errors)) results)"

text \<open>The errors a call has returned; a call that raised has returned none.\<close>

definition emitted_errors :: "py_error + (string list \<times> string list) \<Rightarrow> string list" where
  "emitted_errors r = (case r of Inl e \<Rightarrow> [] | Inr (errors, warnings) \<Rightarrow> errors)"

subsection \<open>Example files\<close>

text \<open>
  A file with a \<^verbatim>\<open>CELL_DATA\<close> section that holds a comment after a \<^verbatim>\<open>LOOKUP_TABLE\<close>
  line and an indented comment after a data line; a file whose only \<^verbatim>\<open>CELL_DATA\<close>
  line is indented; a file of no bytes; a directory.
\<close>

definition example_text :: string where
  "example_text =
     ''# vtk DataFile Version 3.0\<newline>ASCII DATASET POINTS CELLS CELL_TYPES\<newline>CELL_DATA 1\<newline>LOOKUP_TABLE default\<newline># ok\<newline>1.0\<newline>  # stray\<newline>''"

definition indented_text :: string where
  "indented_text = ''DATASET POLYDATA\<newline>  CELL_DATA 1\<newline># note\<newline>''"

definition example_fs :: filesystem where
  "example_fs =
     map_of [(''data.vtk'', File example_text), (''indented.vtk'', File indented_text),
             (''empty.vtk'', File []), (''dir'', Unreadable)]"

text \<open>
  A file with an indented \<^verbatim>\<open>CELL_DATA\<close> line, a comment, a \<^verbatim>\<open>CELL_DATA\<close> line that is not
  indented, and a second comment.
\<close>

definition mixed_text :: string where
  "mixed_text = ''  CELL_DATA 1\<newline># note\<newline>CELL_DATA 2\<newline># late\<newline>''"

definition mixed_fs :: filesystem where
  "mixed_fs = map_of [(''mixed.vtk'', File mixed_text)]"

section \<open>Supporting lemmas\<close>

subsection \<open>Indexing, reading, header and section search\<close>

lemma py_getitem_in_range:
  "0 \<le> i \<Longrightarrow> i < int (length xs) \<Longrightarrow> py_getitem xs i = Inr (xs ! nat i)"
  by (simp add: py_getitem_def)

lemma py_getitem_empty: "py_getitem [] i = Inl IndexError"
  by (simp add: py_getitem_def)

lemma readlines_from_Nil_iff: "readlines_from cur content = [] \<longleftrightarrow> cur = [] \<and> content = []"
  by (induction content arbitrary: cur) auto

lemma readlines_Nil_iff: "readlines content = [] \<longleftrightarrow> content = []"
  by (simp add: readlines_def readlines_from_Nil_iff)

lemma check_header_nonempty:
  "lines \<noteq> [] \<Longrightarrow>
   check_header lines errors =
     Inr (errors @ (if startswith (hd lines) ''# vtk DataFile Version'' then [] else [header_error]))"
  by (cases lines) (simp_all add: check_header_def py_getitem_def)

lemma check_header_empty: "check_header [] errors = Inl IndexError"
  by (simp add: check_header_def py_getitem_empty)

lemma cell_data_scan_none:
  "\<forall>l \<in> set lines. \<not> startswith l ''CELL_DATA'' \<Longrightarrow> cell_data_scan i lines = - 1"
  by (induction lines arbitrary: i) auto

lemma cell_data_scan_first:
  "n < length lines \<Longrightarrow> startswith (lines ! n) ''CELL_DATA'' \<Longrightarrow>
   \<forall>l \<in> set (take n lines). \<not> startswith l ''CELL_DATA'' \<Longrightarrow>
   cell_data_scan i lines = i + int n"
proof (induction lines arbitrary: i n)
  case Nil
  then show ?case by simp
next
  case (Cons l ls)
  show ?case
  proof (cases n)
    case 0
    with Cons.prems show ?thesis by simp
  next
    case (Suc m)
    with Cons.prems have "cell_data_scan (i + 1) ls = (i + 1) + int m"
      by (intro Cons.IH) auto
    with Suc Cons.prems show ?thesis by simp
  qed
qed

lemma strip_keeps_prefix:
  assumes "p \<noteq> []" "\<not> isspace (hd p)" "\<not> isspace (last p)" "startswith s p"
  shows "startswith (strip s) p"
proof -
  from assms(4) obtain r where s: "s = p @ r"
    unfolding startswith_def by (metis append_take_drop_id)
  from assms(1,2) have d: "dropWhile isspace (p @ r) = p @ r"
    by (cases p) auto
  have "rev (dropWhile isspace (rev r @ rev p)) = p @ rev (dropWhile isspace (rev r))"
  proof (cases "\<forall>x \<in> set (rev r). isspace x")
    case True
    moreover from assms(1,3) have "dropWhile isspace (rev p) = rev p"
      by (simp add: dropWhile_eq_self_iff hd_rev)
    ultimately show ?thesis by (simp add: dropWhile_append)
  next
    case False
    then show ?thesis by (auto simp add: dropWhile_append)
  qed
  then show ?thesis
    by (simp add: s strip_def d startswith_def)
qed

lemma cell_data_line_no_comment:
  "startswith l ''CELL_DATA'' \<Longrightarrow> \<not> startswith (strip l) ''#''"
proof
  assume a: "startswith l ''CELL_DATA''" and b: "startswith (strip l) ''#''"
  from a have "startswith l ''C''"
    by (cases l) (simp_all add: startswith_def)
  then have "startswith (strip l) ''C''"
    by (intro strip_keeps_prefix) (simp_all add: isspace_def)
  with b show False
    by (cases "strip l") (simp_all add: startswith_def)
qed

lemma comment_step_in_range:
  assumes "0 \<le> i" "i < int (length lines)"
    and "i = 0 \<longrightarrow> \<not> startswith (strip (lines ! 0)) ''#''"
  shows "comment_step lines i errors =
           Inr (errors @ (if is_violation lines (nat i) then [comment_error_at lines (nat i)] else []))"
proof (cases "startswith (strip (lines ! nat i)) ''#''")
  case False
  with assms(1,2) show ?thesis
    by (simp add: comment_step_def py_getitem_in_range is_violation_def)
next
  case True
  with assms(3) have pos: "0 < i" using assms(1) by (cases "i = 0") auto
  with assms(2) have prev: "py_getitem lines (i - 1) = Inr (lines ! (nat i - 1))"
    by (simp add: py_getitem_in_range nat_diff_distrib)
  from pos have "int (nat i) + 1 = i + 1" "0 < nat i" by simp_all
  with True assms(1,2) prev show ?thesis
    by (simp add: comment_step_def py_getitem_in_range is_violation_def
        prev_is_lookup_table_def comment_error_at_def)
qed

lemma comment_loop_in_range:
  assumes "\<forall>i \<in> set idxs. 0 \<le> i \<and> i < int (length lines) \<and>
             (i = 0 \<longrightarrow> \<not> startswith (strip (lines ! 0)) ''#'')"
  shows "comment_loop lines idxs errors =
           Inr (errors @ map (\<lambda>i. comment_error_at lines (nat i))
                           (filter (\<lambda>i. is_violation lines (nat i)) idxs))"
  using assms
proof (induction idxs arbitrary: errors)
  case Nil
  then show ?case by simp
next
  case (Cons i rest)
  then have "comment_step lines i errors =
      Inr (errors @ (if is_violation lines (nat i) then [comment_error_at lines (nat i)] else []))"
    by (intro comment_step_in_range) auto
  moreover from Cons have "\<And>errs. comment_loop lines rest errs =
      Inr (errs @ map (\<lambda>i. comment_error_at lines (nat i))
                           (filter (\<lambda>i. is_violation lines (nat i)) rest))"
    by simp
  ultimately show ?case by simp
qed

lemma upto_as_upt: "n \<le> m \<Longrightarrow> [int n .. int m - 1] = map int [n..<m]"
proof (induction m)
  case 0
  then show ?case by simp
next
  case (Suc m)
  show ?case
  proof (cases "n = Suc m")
    case True
    then show ?thesis by simp
  next
    case False
    with Suc have "[int n .. int m - 1] = map int [n..<m]" "n \<le> m" by simp_all
    moreover have "[int n .. int (Suc m) - 1] = [int n .. int m - 1] @ [int m]"
      using \<open>n \<le> m\<close> by (simp add: upto_rec2)
    ultimately show ?thesis by simp
  qed
qed

lemma check_cell_data_found:
  assumes "n < length lines" "startswith (lines ! n) ''CELL_DATA''"
    and "\<forall>l \<in> set (take n lines). \<not> startswith l ''CELL_DATA''"
  shows "check_cell_data lines errors =
           Inr (errors @ map (comment_error_at lines) (filter (is_violation lines) [n..<length lines]))"
proof -
  from assms have idx: "find_cell_data lines = int n"
    by (simp add: find_cell_data_def cell_data_scan_first)
  have zero: "n = 0 \<longrightarrow> \<not> startswith (strip (lines ! 0)) ''#''"
    using assms(2) cell_data_line_no_comment by auto
  have "comment_loop lines (map int [n..<length lines]) errors =
          Inr (errors @ map (\<lambda>i. comment_error_at lines (nat i))
                           (filter (\<lambda>i. is_violation lines (nat i)) (map int [n..<length lines])))"
    using zero by (intro comment_loop_in_range) auto
  also have "map (\<lambda>i. comment_error_at lines (nat i))
               (filter (\<lambda>i. is_violation lines (nat i)) (map int [n..<length lines]))
             = map (comment_error_at lines) (filter (is_violation lines) [n..<length lines])"
    by (simp add: filter_map comp_def)
  finally show ?thesis
    using assms(1) idx by (simp add: check_cell_data_def upto_as_upt)
qed

lemma check_cell_data_absent:
  "\<forall>l \<in> set lines. \<not> startswith l ''CELL_DATA'' \<Longrightarrow> check_cell_data lines errors = Inr errors"
  by (simp add: check_cell_data_def find_cell_data_def cell_data_scan_none)

subsection \<open>Decimal numbers and the line number of a message\<close>

lemma digit_char_values:
  "digit_char 0 = CHR ''0''" "digit_char 1 = CHR ''1''" "digit_char 2 = CHR ''2''"
  "digit_char 3 = CHR ''3''" "digit_char 4 = CHR ''4''" "digit_char 5 = CHR ''5''"
  "digit_char 6 = CHR ''6''" "digit_char 7 = CHR ''7''" "digit_char 8 = CHR ''8''"
  "digit_char 9 = CHR ''9''" "digit_char (Suc 0) = CHR ''1''"
  by code_simp+

lemma digit_char_inj: "a < 10 \<Longrightarrow> b < 10 \<Longrightarrow> digit_char a = digit_char b \<Longrightarrow> a = b"
proof -
  assume a: "a < 10" and b: "b < 10" and e: "digit_char a = digit_char b"
  from e have "(of_char (digit_char a) :: nat) = of_char (digit_char b)" by simp
  with a b show "a = b" by (simp add: digit_char_def)
qed

lemma digit_char_not_colon: "d < 10 \<Longrightarrow> digit_char d \<noteq> CHR '':''"
proof
  assume d: "d < 10" and e: "digit_char d = CHR '':''"
  from e have "(of_char (digit_char d) :: nat) = of_char (CHR '':'')" by simp
  with d show False by (simp add: digit_char_def)
qed

lemma str_nat_not_Nil: "str_nat n \<noteq> []"
  by (subst str_nat.simps) simp

lemma str_nat_no_colon: "CHR '':'' \<notin> set (str_nat n)"
proof (induction n rule: str_nat.induct)
  case (1 n)
  show ?case
  proof (cases "n < 10")
    case True
    then show ?thesis using digit_char_not_colon [of n] by (subst str_nat.simps) auto
  next
    case False
    moreover have "digit_char (n mod 10) \<noteq> CHR '':''" by (intro digit_char_not_colon) simp
    ultimately show ?thesis using 1 by (subst str_nat.simps) auto
  qed
qed

lemma str_nat_inj: "str_nat n = str_nat m \<Longrightarrow> n = m"
proof (induction n arbitrary: m rule: str_nat.induct)
  case (1 n)
  show ?case
  proof (cases "n < 10")
    case True
    then have n: "str_nat n = [digit_char n]" by (subst str_nat.simps) simp
    show ?thesis
    proof (cases "m < 10")
      case True
      then have "str_nat m = [digit_char m]" by (subst str_nat.simps) simp
      with n "1.prems" True \<open>n < 10\<close> show ?thesis by (auto dest: digit_char_inj)
    next
      case False
      then have "str_nat m = str_nat (m div 10) @ [digit_char (m mod 10)]"
        by (subst str_nat.simps) simp
      with n "1.prems" str_nat_not_Nil [of "m div 10"] show ?thesis by (cases "str_nat (m div 10)") auto
    qed
  next
    case False
    then have n: "str_nat n = str_nat (n div 10) @ [digit_char (n mod 10)]"
      by (subst str_nat.simps) simp
    show ?thesis
    proof (cases "m < 10")
      case True
      then have "str_nat m = [digit_char m]" by (subst str_nat.simps) simp
      with n "1.prems" str_nat_not_Nil [of "n div 10"] show ?thesis by (cases "str_nat (n div 10)") auto
    next
      case m: False
      then have "str_nat m = str_nat (m div 10) @ [digit_char (m mod 10)]"
        by (subst str_nat.simps) simp
      with n "1.prems" have eq: "str_nat (n div 10) = str_nat (m div 10)"
        and d: "digit_char (n mod 10) = digit_char (m mod 10)" by auto
      from eq False have "n div 10 = m div 10" by (intro "1.IH") auto
      moreover from d have "n mod 10 = m mod 10" by (intro digit_char_inj) auto
      ultimately show ?thesis by (metis div_mult_mod_eq)
    qed
  qed
qed

lemma colon_delimited:
  "CHR '':'' \<notin> set s \<Longrightarrow> CHR '':'' \<notin> set t \<Longrightarrow>
   startswith (s @ CHR '':'' # x) (t @ [CHR '':'']) \<Longrightarrow> s = t"
proof (induction s arbitrary: t)
  case Nil
  then show ?case by (cases t) (auto simp: startswith_def)
next
  case (Cons c s)
  show ?case
  proof (cases t)
    case Nil
    with Cons.prems show ?thesis by (auto simp: startswith_def)
  next
    case (Cons d t')
    with Cons.prems have "c = d" "startswith (s @ CHR '':'' # x) (t' @ [CHR '':''])"
      by (auto simp: startswith_def)
    with Cons.IH [of t'] Cons.prems Cons show ?thesis by auto
  qed
qed

lemma startswith_append_same: "startswith (p @ s) (p @ q) = startswith s q"
  by (simp add: startswith_def)

lemma startswith_append_self: "startswith (p @ s) p"
  by (simp add: startswith_def)

lemma names_line_comment_error:
  "names_line (int i + 1) (comment_error (int j + 1) x) \<longleftrightarrow> j = i"
proof
  assume "names_line (int i + 1) (comment_error (int j + 1) x)"
  then have "startswith (str_nat (Suc j) @ CHR '':'' # CHR '' '' # x) ((str_nat (Suc i) @ [CHR '':'']) @ '' '')"
    unfolding names_line_def comment_error_def startswith_append_same
    by (simp add: str_int_def nat_add_distrib)
  then have "startswith (str_nat (Suc j) @ CHR '':'' # CHR '' '' # x) (str_nat (Suc i) @ [CHR '':''])"
    unfolding startswith_def by (metis append_eq_conv_conj append_assoc)
  then have "str_nat (Suc j) = str_nat (Suc i)"
    by (intro colon_delimited [of _ _ "CHR '' '' # x"]) (simp_all add: str_nat_no_colon)
  then show "j = i" using str_nat_inj by blast
next
  assume "j = i"
  then show "names_line (int i + 1) (comment_error (int j + 1) x)"
    unfolding names_line_def comment_error_def startswith_append_same
    by (simp add: startswith_def)
qed

lemma names_line_header_error: "\<not> names_line n header_error"
  by (simp add: names_line_def header_error_def startswith_def)

lemma comment_error_is_comment_error: "is_comment_error (comment_error n x)"
  by (simp add: is_comment_error_def comment_error_def startswith_def)

lemma header_error_not_comment_error: "\<not> is_comment_error header_error"
  by (simp add: is_comment_error_def header_error_def startswith_def)

lemma filter_upt_single:
  "filter (\<lambda>j. j = i \<and> P j) [n..<m] = (if n \<le> i \<and> i < m \<and> P i then [i] else [])"
  by (induction m) auto

subsection \<open>The required sections\<close>

lemma py_in_iff_occurs: "py_in sub s \<longleftrightarrow> occurs_in sub s"
proof (induction s)
  case Nil
  then show ?case by (auto simp: occurs_in_def)
next
  case (Cons c cs)
  show ?case
  proof
    assume "py_in sub (c # cs)"
    then consider "startswith (c # cs) sub" | "py_in sub cs" by auto
    then show "occurs_in sub (c # cs)"
    proof cases
      case 1
      then have "c # cs = [] @ sub @ drop (length sub) (c # cs)"
        unfolding startswith_def by (metis append_Nil append_take_drop_id)
      then show ?thesis unfolding occurs_in_def by blast
    next
      case 2
      with Cons obtain b a where "cs = b @ sub @ a" unfolding occurs_in_def by blast
      then have "c # cs = (c # b) @ sub @ a" by simp
      then show ?thesis unfolding occurs_in_def by blast
    qed
  next
    assume "occurs_in sub (c # cs)"
    then obtain b a where ba: "c # cs = b @ sub @ a" unfolding occurs_in_def by blast
    show "py_in sub (c # cs)"
    proof (cases b)
      case Nil
      with ba have "startswith (c # cs) sub" by (simp add: startswith_def)
      then show ?thesis by simp
    next
      case (Cons d b')
      with ba have "cs = b' @ sub @ a" by simp
      then have "occurs_in sub cs" unfolding occurs_in_def by blast
      with Cons.IH show ?thesis by simp
    qed
  qed
qed

lemma foldl_append_if:
  "foldl (\<lambda>acc x. if P x then acc @ [f x] else acc) acc xs = acc @ map f (filter P xs)"
  by (induction xs arbitrary: acc) auto

lemma find_sections_eq:
  "find_sections lines =
     concat (map (\<lambda>line. filter (\<lambda>section. py_in section line) required_sections) (take 20 lines))"
proof -
  have inner: "\<And>found line. foldl (\<lambda>found section. if py_in section line then found @ [section] else found)
                  found required_sections
               = found @ filter (\<lambda>section. py_in section line) required_sections"
    using foldl_append_if [where f = "\<lambda>x. x"] by simp
  have "\<And>found. foldl (\<lambda>found line. found @ filter (\<lambda>section. py_in section line) required_sections) found ls
        = found @ concat (map (\<lambda>line. filter (\<lambda>section. py_in section line) required_sections) ls)" for ls
    by (induction ls) auto
  then show ?thesis
    by (simp add: find_sections_def inner)
qed

lemma set_find_sections:
  "set (find_sections lines) =
     {k \<in> set required_sections. \<exists>l \<in> set (take 20 lines). occurs_in k l}"
  by (auto simp: find_sections_eq py_in_iff_occurs)

lemma check_sections_eq:
  "check_sections lines warnings =
     warnings @ map section_warning
       (filter (\<lambda>k. \<not> (\<exists>l \<in> set (take 20 lines). occurs_in k l)) required_sections)"
proof -
  have "filter (\<lambda>k. k \<notin> set (find_sections lines)) required_sections
        = filter (\<lambda>k. \<not> (\<exists>l \<in> set (take 20 lines). occurs_in k l)) required_sections"
    by (rule filter_cong) (auto simp: set_find_sections)
  then show ?thesis
    by (simp add: check_sections_def foldl_append_if)
qed

lemma section_warning_inj: "section_warning a = section_warning b \<Longrightarrow> a = b"
  by (simp add: section_warning_def)

lemma distinct_required_sections: "distinct required_sections"
  by (simp add: required_sections_def)

lemma check_cell_data_returns:
  assumes "lines \<noteq> []"
  shows "\<exists>n. check_cell_data lines errors = Inr (errors @ map (comment_error_at lines) (filter (is_violation lines) [n..<length lines]))"
proof (cases "\<forall>l \<in> set lines. \<not> startswith l ''CELL_DATA''")
  case True
  then have "check_cell_data lines errors = Inr errors" by (rule check_cell_data_absent)
  then have "check_cell_data lines errors =
      Inr (errors @ map (comment_error_at lines) (filter (is_violation lines) [length lines..<length lines]))"
    by simp
  then show ?thesis by blast
next
  case False
  then have ex: "\<exists>n. n < length lines \<and> startswith (lines ! n) ''CELL_DATA''"
    by (metis in_set_conv_nth)
  define n where "n = (LEAST n. n < length lines \<and> startswith (lines ! n) ''CELL_DATA'')"
  from ex have n: "n < length lines \<and> startswith (lines ! n) ''CELL_DATA''"
    unfolding n_def by (rule LeastI_ex)
  have "\<forall>l \<in> set (take n lines). \<not> startswith l ''CELL_DATA''"
  proof
    fix l assume "l \<in> set (take n lines)"
    then obtain m where m: "m < n" "m < length lines" "l = lines ! m"
      by (auto simp: in_set_conv_nth)
    then show "\<not> startswith l ''CELL_DATA''"
      using not_less_Least [of m "\<lambda>n. n < length lines \<and> startswith (lines ! n) ''CELL_DATA''"]
      unfolding n_def by auto
  qed
  with n show ?thesis using check_cell_data_found by blast
qed

subsection \<open>The result on a file with lines, and on the example files\<close>

lemma readlines_example: "readlines example_text =
  [''# vtk DataFile Version 3.0\<newline>'', ''ASCII DATASET POINTS CELLS CELL_TYPES\<newline>'',
   ''CELL_DATA 1\<newline>'', ''LOOKUP_TABLE default\<newline>'', ''# ok\<newline>'', ''1.0\<newline>'',
   ''  # stray\<newline>'']"
  by (simp add: readlines_def example_text_def)

lemma readlines_indented: "readlines indented_text =
  [''DATASET POLYDATA\<newline>'', ''  CELL_DATA 1\<newline>'', ''# note\<newline>'']"
  by (simp add: readlines_def indented_text_def)

lemma validate_file_nonempty:
  assumes "fs path = Some (File content)" and "content \<noteq> []"
  shows "\<exists>n. validate_vtk_file fs path =
           Inr ((if startswith (hd (readlines content)) ''# vtk DataFile Version'' then [] else [header_error])
                  @ map (comment_error_at (readlines content))
                      (filter (is_violation (readlines content)) [n..<length (readlines content)]),
                check_sections (readlines content) [])"
proof -
  from assms(2) have ne: "readlines content \<noteq> []" by (simp add: readlines_Nil_iff)
  from check_cell_data_returns [OF ne] obtain n where
    "check_cell_data (readlines content)
       (if startswith (hd (readlines content)) ''# vtk DataFile Version'' then [] else [header_error]) =
     Inr ((if startswith (hd (readlines content)) ''# vtk DataFile Version'' then [] else [header_error])
            @ map (comment_error_at (readlines content))
                (filter (is_violation (readlines content)) [n..<length (readlines content)]))"
    by blast
  with assms(1) ne have "validate_vtk_file fs path =
           Inr ((if startswith (hd (readlines content)) ''# vtk DataFile Version'' then [] else [header_error])
                  @ map (comment_error_at (readlines content))
                      (filter (is_violation (readlines content)) [n..<length (readlines content)]),
                check_sections (readlines content) [])"
    by (simp add: validate_vtk_file_def check_header_nonempty Let_def)
  then show ?thesis by blast
qed

lemma validate_file_empty:
  "fs path = Some (File []) \<Longrightarrow> validate_vtk_file fs path = Inl IndexError"
  by (simp add: validate_vtk_file_def readlines_def check_header_empty)

subsection \<open>Files without a section start\<close>

lemma indented_text_nonempty: "indented_text \<noteq> []"
  by (simp add: indented_text_def)

lemma validate_file_no_section:
  assumes "fs path = Some (File content)" and "lines = readlines content"
    and "\<forall>l \<in> set lines. \<not> startswith l ''CELL_DATA''"
  shows "validate_vtk_file fs path =
           (if content = [] then Inl IndexError
            else Inr (if startswith (hd lines) ''# vtk DataFile Version'' then [] else [header_error],
                      check_sections lines []))"
proof (cases "content = []")
  case True
  with assms(1) show ?thesis by (simp add: validate_file_empty)
next
  case False
  then have "lines \<noteq> []" using assms(2) by (simp add: readlines_Nil_iff)
  with assms False show ?thesis
    by (simp add: validate_vtk_file_def check_header_nonempty check_cell_data_absent Let_def)
qed

lemma indented_not_section_start:
  assumes "l \<noteq> []" and "isspace (hd l)"
  shows "\<not> startswith l ''CELL_DATA''"
proof
  assume "startswith l ''CELL_DATA''"
  with assms(1) have "hd l = CHR ''C''" by (cases l) (simp_all add: startswith_def)
  with assms(2) show False by (simp add: isspace_def)
qed

subsection \<open>The warnings of a file with lines\<close>

lemma section_warnings_of_file:
  assumes "fs path = Some (File content)" and "content \<noteq> []" and "lines = readlines content"
  shows "\<exists>errors.
           validate_vtk_file fs path =
             Inr (errors,
                  map section_warning
                    (filter (\<lambda>k. \<not> (\<exists>l \<in> set (take 20 lines). occurs_in k l)) required_sections))"
proof -
  from validate_file_nonempty [of fs path content] assms obtain n where
    "validate_vtk_file fs path =
          Inr ((if startswith (hd lines) ''# vtk DataFile Version'' then [] else [header_error])
                 @ map (comment_error_at lines) (filter (is_violation lines) [n..<length lines]),
               check_sections lines [])"
    by auto
  then show ?thesis by (simp add: check_sections_eq)
qed

lemma section_warning_count:
  assumes "k \<in> set required_sections"
  shows "count_list (map section_warning (filter P required_sections)) (section_warning k)
           = (if P k then 1 else 0)"
proof -
  have "count_list (map section_warning xs) (section_warning k) = count_list xs k" for xs
    by (induction xs) (auto dest: section_warning_inj)
  moreover have "count_list (filter P required_sections) k = (if P k then 1 else 0)"
    using assms by (auto simp: required_sections_def)
  ultimately show ?thesis by simp
qed

subsection \<open>The report loop\<close>

lemma print_items_eq:
  "print_items xs st = st\<lparr>stdout := stdout st @ map (\<lambda>x. ''   '' @ bullet @ '' '' @ x) xs\<rparr>"
  unfolding print_items_def
  by (induction xs arbitrary: st) (simp_all add: print_def)

lemma report_file_returns:
  assumes "validate_vtk_file fs filepath = Inr (errors, warnings)"
  shows "\<exists>out. report_file fs filepath st =
           Inr \<lparr>stdout = stdout st @ out, total_errors = total_errors st + int (length errors)\<rparr>"
proof -
  obtain out0 total0 where st: "st = \<lparr>stdout = out0, total_errors = total0\<rparr>"
    by (cases st) auto
  show ?thesis
  proof (cases "errors = []")
    case True
    with assms st show ?thesis
      by (cases "warnings = []") (simp_all add: report_file_def Let_def print_def print_items_eq)
  next
    case False
    with assms st show ?thesis
      by (cases "warnings = []") (simp_all add: report_file_def Let_def print_def print_items_eq)
  qed
qed

lemma report_files_returns:
  assumes "map (validate_vtk_file fs) paths = map Inr results"
  shows "\<exists>out. report_files fs paths st =
           Inr \<lparr>stdout = stdout st @ out, total_errors = total_errors st + error_total results\<rparr>"
  using assms
proof (induction paths arbitrary: st results)
  case Nil
  then show ?case by (cases st) (simp add: error_total_def)
next
  case (Cons p ps)
  then obtain r rs where res: "results = r # rs" "validate_vtk_file fs p = Inr r"
    "map (validate_vtk_file fs) ps = map Inr rs"
    by (cases results) auto
  obtain errors warnings where r: "r = (errors, warnings)" by (cases r)
  from report_file_returns [of fs p errors warnings st] res(2) r obtain out1 where
    one: "report_file fs p st =
            Inr \<lparr>stdout = stdout st @ out1, total_errors = total_errors st + int (length errors)\<rparr>"
    by auto
  from Cons.IH [OF res(3),
      of "\<lparr>stdout = stdout st @ out1, total_errors = total_errors st + int (length errors)\<rparr>"]
  obtain out2 where
    "report_files fs ps \<lparr>stdout = stdout st @ out1, total_errors = total_errors st + int (length errors)\<rparr> =
       Inr \<lparr>stdout = (stdout st @ out1) @ out2,
            total_errors = (total_errors st + int (length errors)) + error_total rs\<rparr>"
    by auto
  with one res(1) r have "report_files fs (p # ps) st =
      Inr \<lparr>stdout = stdout st @ (out1 @ out2), total_errors = total_errors st + error_total results\<rparr>"
    by (simp add: error_total_def)
  then show ?case by blast
qed

lemma error_total_nonneg: "0 \<le> error_total results"
  unfolding error_total_def by (induction results) auto

subsection \<open>The first section start\<close>

lemma readlines_mixed: "readlines mixed_text =
  [''  CELL_DATA 1\<newline>'', ''# note\<newline>'', ''CELL_DATA 2\<newline>'', ''# late\<newline>'']"
  by (simp add: readlines_def mixed_text_def)

lemma first_section_start:
  "(\<forall>l \<in> set lines. \<not> startswith l ''CELL_DATA'') \<or>
   (\<exists>n < length lines. startswith (lines ! n) ''CELL_DATA'' \<and>
        (\<forall>l \<in> set (take n lines). \<not> startswith l ''CELL_DATA''))"
proof (induction lines)
  case Nil
  then show ?case by simp
next
  case (Cons l ls)
  show ?case
  proof (cases "startswith l ''CELL_DATA''")
    case True
    then have "0 < length (l # ls) \<and> startswith ((l # ls) ! 0) ''CELL_DATA'' \<and>
        (\<forall>l' \<in> set (take 0 (l # ls)). \<not> startswith l' ''CELL_DATA'')" by simp
    then show ?thesis by blast
  next
    case False
    from Cons.IH show ?thesis
    proof
      assume "\<forall>l \<in> set ls. \<not> startswith l ''CELL_DATA''"
      with False show ?thesis by simp
    next
      assume "\<exists>n < length ls. startswith (ls ! n) ''CELL_DATA'' \<and>
        (\<forall>l \<in> set (take n ls). \<not> startswith l ''CELL_DATA'')"
      then obtain n where n: "n < length ls" "startswith (ls ! n) ''CELL_DATA''"
        "\<forall>l \<in> set (take n ls). \<not> startswith l ''CELL_DATA''" by blast
      with False have "Suc n < length (l # ls) \<and> startswith ((l # ls) ! Suc n) ''CELL_DATA'' \<and>
        (\<forall>l' \<in> set (take (Suc n) (l # ls)). \<not> startswith l' ''CELL_DATA'')" by simp
      then show ?thesis by blast
    qed
  qed
qed

lemma validate_file_section:
  assumes "fs path = Some (File content)" and "lines = readlines content"
    and "n < length lines" and "startswith (lines ! n) ''CELL_DATA''"
    and "\<forall>l \<in> set (take n lines). \<not> startswith l ''CELL_DATA''"
  shows "validate_vtk_file fs path =
           Inr ((if startswith (hd lines) ''# vtk DataFile Version'' then [] else [header_error])
                  @ map (comment_error_at lines) (filter (is_violation lines) [n..<length lines]),
                check_sections lines [])"
proof -
  from assms(3) have "lines \<noteq> []" by auto
  moreover have "check_cell_data lines
        (if startswith (hd lines) ''# vtk DataFile Version'' then [] else [header_error]) =
      Inr ((if startswith (hd lines) ''# vtk DataFile Version'' then [] else [header_error])
             @ map (comment_error_at lines) (filter (is_violation lines) [n..<length lines]))"
    using assms(3,4,5) by (rule check_cell_data_found)
  ultimately show ?thesis
    using assms(1,2) by (simp add: validate_vtk_file_def check_header_nonempty Let_def)
qed

lemma names_line_errors:
  "filter (names_line (int i + 1))
     ((if h then [] else [header_error])
        @ map (comment_error_at lines) (filter (is_violation lines) [n..<m]))
   = (if n \<le> i \<and> i < m \<and> is_violation lines i then [comment_error_at lines i] else [])"
proof -
  have "filter (names_line (int i + 1)) (map (comment_error_at lines) (filter (is_violation lines) [n..<m]))
        = map (comment_error_at lines) (filter (\<lambda>j. j = i \<and> is_violation lines j) [n..<m])"
    by (simp add: filter_map comp_def comment_error_at_def names_line_comment_error conj_commute)
  then show ?thesis
    by (simp add: filter_upt_single names_line_header_error)
qed

lemma section_start_is_raw:
  assumes "find_cell_data lines = int n" and "n < length lines"
  shows "startswith (lines ! n) ''CELL_DATA''"
proof -
  from first_section_start [of lines] show ?thesis
  proof
    assume "\<forall>l \<in> set lines. \<not> startswith l ''CELL_DATA''"
    then have "find_cell_data lines = - 1"
      by (simp add: find_cell_data_def cell_data_scan_none)
    with assms(1) show ?thesis by simp
  next
    assume "\<exists>m < length lines. startswith (lines ! m) ''CELL_DATA'' \<and>
        (\<forall>l \<in> set (take m lines). \<not> startswith l ''CELL_DATA'')"
    then obtain m where m: "m < length lines" "startswith (lines ! m) ''CELL_DATA''"
      "\<forall>l \<in> set (take m lines). \<not> startswith l ''CELL_DATA''" by blast
    then have "find_cell_data lines = int m"
      by (simp add: find_cell_data_def cell_data_scan_first)
    with assms(1) m(2) show ?thesis by simp
  qed
qed

text \<open>The summary of a run in which every call returns.\<close>

lemma run_summary:
  assumes "paths \<noteq> []" and "map (validate_vtk_file fs) paths = map Inr results"
  shows "\<exists>report.
           main fs (prog # paths) =
             Inr (report @
                    [''Total files validated: '' @ str_int (int (length paths)),
                     ''Total errors: '' @ str_int (error_total results),
                     ''Overall result: '' @ (if error_total results = 0 then ''PASSED'' else ''FAILED'')],
                  if error_total results = 0 then 0 else 1)"
proof -
  from report_files_returns [OF assms(2), of "\<lparr>stdout = [], total_errors = 0\<rparr>"] obtain out where
    r: "report_files fs paths \<lparr>stdout = [], total_errors = 0\<rparr> =
          Inr \<lparr>stdout = out, total_errors = error_total results\<rparr>"
    by auto
  from assms(1) have len: "\<not> length (prog # paths) < 2" by (cases paths) auto
  have pos: "0 < error_total results \<longleftrightarrow> error_total results \<noteq> 0"
    using error_total_nonneg [of results] by auto
  have "main fs (prog # paths) =
          Inr ((out @ [CHR 0x0A # replicate 50 CHR ''='']) @
                 [''Total files validated: '' @ str_int (int (length paths)),
                  ''Total errors: '' @ str_int (error_total results),
                  ''Overall result: '' @ (if error_total results = 0 then ''PASSED'' else ''FAILED'')],
               if error_total results = 0 then 0 else 1)"
    unfolding main_def using len r pos by (simp add: Let_def print_def)
  then show ?thesis by blast
qed

section \<open>The claims\<close>

text \<open>
  Claim C1. In a readable file with a line whose raw text starts with \<^verbatim>\<open>CELL_DATA\<close>, let
  \<open>i0\<close> be the first such line and \<open>i\<close> a line at or after it whose stripped text starts
  with \<^verbatim>\<open>#\<close>. The function returns, and the errors that name line \<open>i + 1\<close> are none when
  the line before, stripped, starts with \<^verbatim>\<open>LOOKUP_TABLE\<close>, and otherwise the one message
  \<^verbatim>\<open>Invalid comment in CELL_DATA section at line {i+1}: {excerpt}\<close>. Such a line is never
  line 0, so the lookback always has a line to look at and never reaches the last line.
\<close>

theorem comment_flagged_unless_lookup_table:
  assumes "fs path = Some (File content)" and "lines = readlines content"
    and "i0 < length lines" and "startswith (lines ! i0) ''CELL_DATA''"
    and "\<forall>l \<in> set (take i0 lines). \<not> startswith l ''CELL_DATA''"
    and "i0 \<le> i" and "i < length lines" and "startswith (strip (lines ! i)) ''#''"
  shows "\<exists>errors warnings.
           validate_vtk_file fs path = Inr (errors, warnings) \<and>
           filter (names_line (int i + 1)) errors =
             (if prev_is_lookup_table lines i then []
              else [comment_error (int i + 1) (take 50 (strip (lines ! i)))]) \<and>
           0 < i"
proof -
  let ?hdr = "if startswith (hd lines) ''# vtk DataFile Version'' then [] else [header_error]"
  let ?errs = "?hdr @ map (comment_error_at lines) (filter (is_violation lines) [i0..<length lines])"
  from assms(3) have ne: "lines \<noteq> []" by auto
  have cd: "check_cell_data lines ?hdr = Inr ?errs"
    using assms(3,4,5) by (rule check_cell_data_found)
  have v: "validate_vtk_file fs path = Inr (?errs, check_sections lines [])"
    using assms(1,2) ne cd by (simp add: validate_vtk_file_def check_header_nonempty Let_def)
  have "filter (names_line (int i + 1)) ?hdr = []"
    by (simp add: names_line_header_error)
  moreover have "filter (names_line (int i + 1))
                   (map (comment_error_at lines) (filter (is_violation lines) [i0..<length lines]))
                 = map (comment_error_at lines) (filter (\<lambda>j. j = i \<and> is_violation lines j) [i0..<length lines])"
    by (simp add: filter_map comp_def comment_error_at_def names_line_comment_error conj_commute)
  ultimately have "filter (names_line (int i + 1)) ?errs =
      (if is_violation lines i then [comment_error_at lines i] else [])"
    using assms(6,7) by (simp add: filter_upt_single names_line_header_error)
  then have f: "filter (names_line (int i + 1)) ?errs =
      (if prev_is_lookup_table lines i then []
       else [comment_error (int i + 1) (take 50 (strip (lines ! i)))])"
    using assms(8) by (simp add: is_violation_def comment_error_at_def)
  have "i \<noteq> i0" using assms(4,8) cell_data_line_no_comment by blast
  with assms(6) have "0 < i" by simp
  with v f show ?thesis by blast
qed

text \<open>
  In the example file line 7 follows a number and is flagged; line 5 follows the
  \<^verbatim>\<open>LOOKUP_TABLE\<close> line and is not.
\<close>

theorem comment_flagged_unless_lookup_table_witness:
  "(\<exists>errors warnings.
      validate_vtk_file example_fs ''data.vtk'' = Inr (errors, warnings) \<and>
      filter (names_line 7) errors = [''Invalid comment in CELL_DATA section at line 7: # stray'']) \<and>
   (\<exists>errors warnings.
      validate_vtk_file example_fs ''data.vtk'' = Inr (errors, warnings) \<and>
      filter (names_line 5) errors = [])"
  using comment_flagged_unless_lookup_table
          [of example_fs "''data.vtk''" example_text "readlines example_text" 2 6]
        comment_flagged_unless_lookup_table
          [of example_fs "''data.vtk''" example_text "readlines example_text" 2 4]
  by (simp add: example_fs_def readlines_example startswith_def strip_def isspace_def
      prev_is_lookup_table_def comment_error_def str_int_def str_nat.simps digit_char_values)

text \<open>
  Claim C2 says that the function does not raise on a file of zero lines and reports the
  header error there. On the empty file \<^verbatim>\<open>lines[0]\<close> raises \<^verbatim>\<open>IndexError\<close>.
\<close>

theorem empty_file_raises:
  "validate_vtk_file example_fs ''empty.vtk'' = Inl IndexError"
  by (rule validate_file_empty) (simp add: example_fs_def)

text \<open>
  Claim C3 as stated takes the excerpt from the unstripped line. Line 7 of the example
  file is indented by two spaces; the message returned for it is not the one with the
  first 50 characters of the raw line.
\<close>

theorem excerpt_unstripped_counterexample:
  "validate_vtk_file example_fs ''data.vtk'' =
     Inr ([''Invalid comment in CELL_DATA section at line 7: # stray''], []) \<and>
   readlines example_text ! 6 = ''  # stray\<newline>'' \<and>
   ''Invalid comment in CELL_DATA section at line 7: # stray''
     \<noteq> comment_error 7 (take 50 (readlines example_text ! 6))"
  by code_simp

text \<open>
  Claim C3, amended. Every error of the comment check that the function returns on a
  readable file is the message for some line \<open>i\<close> of the file with the excerpt being the
  first 50 characters of the stripped line: \<^verbatim>\<open>line[:50]\<close> is taken after
  \<^verbatim>\<open>line = lines[i].strip()\<close>.
\<close>

theorem comment_excerpt_is_stripped:
  assumes "fs path = Some (File content)" and "lines = readlines content"
    and "validate_vtk_file fs path = Inr (errors, warnings)"
    and "e \<in> set errors" and "is_comment_error e"
  shows "\<exists>i < length lines. e = comment_error (int i + 1) (take 50 (strip (lines ! i)))"
proof -
  have "content \<noteq> []"
    using assms(1,3) validate_file_empty [of fs path] by auto
  with validate_file_nonempty [of fs path content] assms(1,2,3) obtain n where
    "errors = (if startswith (hd lines) ''# vtk DataFile Version'' then [] else [header_error])
                @ map (comment_error_at lines) (filter (is_violation lines) [n..<length lines])"
    by auto
  with assms(4) consider "e = header_error"
    | i where "i < length lines" "e = comment_error_at lines i"
    by (auto split: if_splits)
  then show ?thesis
  proof cases
    case 1
    with assms(5) show ?thesis by (simp add: header_error_not_comment_error)
  next
    case 2
    then show ?thesis unfolding comment_error_at_def by blast
  qed
qed

theorem comment_excerpt_is_stripped_witness:
  "\<exists>i < length (readlines example_text).
      ''Invalid comment in CELL_DATA section at line 7: # stray''
             = comment_error (int i + 1) (take 50 (strip (readlines example_text ! i)))"
proof -
  have v: "validate_vtk_file example_fs ''data.vtk'' =
             Inr ([''Invalid comment in CELL_DATA section at line 7: # stray''], [])"
    by code_simp
  show ?thesis
    using comment_excerpt_is_stripped [of example_fs "''data.vtk''" example_text
        "readlines example_text" "[''Invalid comment in CELL_DATA section at line 7: # stray'']" "[]"
        "''Invalid comment in CELL_DATA section at line 7: # stray''"] v
    by (simp add: example_fs_def is_comment_error_def startswith_def)
qed

text \<open>
  Claim C6. For a path that names nothing the function returns the one error
  \<^verbatim>\<open>File not found: {path}\<close> and no warning.
\<close>

theorem missing_file_reported:
  assumes "fs path = None"
  shows "validate_vtk_file fs path = Inr ([''File not found: '' @ path], [])"
  using assms by (simp add: validate_vtk_file_def)

theorem missing_file_reported_witness:
  "validate_vtk_file example_fs ''missing.vtk'' = Inr ([''File not found: missing.vtk''], [])"
  using missing_file_reported [of example_fs "''missing.vtk''"]
  by (simp add: example_fs_def)

text \<open>
  Claim C4 says that every readable file gets one warning for each keyword that occurs
  in none of its first 20 lines. The empty file is readable and holds no keyword: the
  section check, were it reached, would give the five warnings, but the header check
  before it raises \<^verbatim>\<open>IndexError\<close> and nothing is returned. (On a file with lines the
  warnings are as claimed: \<open>section_warnings_of_file\<close>, \<open>section_warning_count\<close>.)
\<close>

theorem section_warnings_lost_on_empty_file:
  "readlines [] = [] \<and>
   check_sections (readlines []) [] = map section_warning required_sections \<and>
   validate_vtk_file example_fs ''empty.vtk'' = Inl IndexError"
  by code_simp

text \<open>
  Claim C5. On a readable file with no line whose raw text starts with \<^verbatim>\<open>CELL_DATA\<close> the
  function returns at most the header error, whatever lines start with \<^verbatim>\<open>#\<close>: none of the
  errors it emits is one of the comment check. (On the empty file it emits nothing, it
  raises.)
\<close>

theorem no_cell_data_no_comment_error:
  assumes "fs path = Some (File content)" and "lines = readlines content"
    and "\<forall>l \<in> set lines. \<not> startswith l ''CELL_DATA''"
  shows "validate_vtk_file fs path =
           (if content = [] then Inl IndexError
            else Inr (if startswith (hd lines) ''# vtk DataFile Version'' then [] else [header_error],
                      check_sections lines [])) \<and>
         filter is_comment_error (emitted_errors (validate_vtk_file fs path)) = []"
proof -
  have "validate_vtk_file fs path =
           (if content = [] then Inl IndexError
            else Inr (if startswith (hd lines) ''# vtk DataFile Version'' then [] else [header_error],
                      check_sections lines []))"
    using assms by (rule validate_file_no_section)
  then show ?thesis
    by (simp add: emitted_errors_def header_error_not_comment_error)
qed

theorem no_cell_data_no_comment_error_witness:
  "validate_vtk_file example_fs ''indented.vtk'' =
     Inr ([header_error], check_sections (readlines indented_text) []) \<and>
   filter is_comment_error (emitted_errors (validate_vtk_file example_fs ''indented.vtk'')) = []"
  using no_cell_data_no_comment_error
          [of example_fs "''indented.vtk''" indented_text "readlines indented_text"]
  by (simp add: example_fs_def readlines_indented startswith_def indented_text_nonempty
      emitted_errors_def header_error_not_comment_error)

text \<open>
  Claim C7. On a readable file that is not empty the function returns, and the header
  error is among the errors exactly when the first line does not start with
  \<^verbatim>\<open># vtk DataFile Version\<close>.
\<close>

theorem header_error_iff_bad_first_line:
  assumes "fs path = Some (File content)" and "content \<noteq> []" and "lines = readlines content"
  shows "\<exists>errors warnings.
           validate_vtk_file fs path = Inr (errors, warnings) \<and>
           (header_error \<in> set errors \<longleftrightarrow> \<not> startswith (hd lines) ''# vtk DataFile Version'')"
proof -
  from validate_file_nonempty [of fs path content] assms obtain n where
    v: "validate_vtk_file fs path =
          Inr ((if startswith (hd lines) ''# vtk DataFile Version'' then [] else [header_error])
                 @ map (comment_error_at lines) (filter (is_violation lines) [n..<length lines]),
               check_sections lines [])"
    by auto
  have "header_error \<noteq> comment_error_at lines j" for j
    unfolding comment_error_at_def
    by (metis comment_error_is_comment_error header_error_not_comment_error)
  then have "header_error \<notin> set (map (comment_error_at lines) (filter (is_violation lines) [n..<length lines]))"
    by auto
  with v show ?thesis by auto
qed

theorem header_error_iff_bad_first_line_witness:
  "\<exists>errors warnings.
     validate_vtk_file example_fs ''indented.vtk'' = Inr (errors, warnings) \<and>
     header_error \<in> set errors"
  using header_error_iff_bad_first_line
          [of example_fs "''indented.vtk''" indented_text "readlines indented_text"]
  by (simp add: example_fs_def readlines_indented startswith_def indented_text_nonempty
      emitted_errors_def header_error_not_comment_error)

text \<open>
  Claim C8 says that every run over one or more files ends with the number of files and
  the sum of the numbers of errors printed and with exit status 0 or 1 after that sum.
  A run that meets the empty file ends with the \<^verbatim>\<open>IndexError\<close> of the header check, before
  any summary is printed, although the file before it was checked and gave one error.
  (A run in which every call returns ends as claimed: \<open>run_summary\<close>.)
\<close>

theorem run_aborts_on_empty_file:
  "validate_vtk_file example_fs ''data.vtk'' =
     Inr ([''Invalid comment in CELL_DATA section at line 7: # stray''], []) \<and>
   main example_fs [''validate_vtk.py'', ''data.vtk'', ''empty.vtk''] = Inl IndexError \<and>
   main example_fs [''validate_vtk.py'', ''empty.vtk''] = Inl IndexError"
  by code_simp

text \<open>
  Claim C10. The section start is looked for on the raw line. In every readable file a
  line that begins with whitespace is never the section start, whatever follows the
  whitespace; a line with no raw \<^verbatim>\<open>CELL_DATA\<close> line at or before it gets no error of the
  comment check, whatever indented \<^verbatim>\<open>CELL_DATA\<close> lines come before it; and in a file whose
  lines that start with \<^verbatim>\<open>CELL_DATA\<close> once stripped all begin with whitespace, no section
  start is found and none of the errors emitted is one of the comment check, whatever
  lines start with \<^verbatim>\<open>#\<close>.
\<close>

theorem indented_cell_data_ignored:
  assumes "fs path = Some (File content)" and "lines = readlines content"
  shows "(\<forall>n < length lines.
            lines ! n \<noteq> [] \<and> isspace (hd (lines ! n)) \<longrightarrow> find_cell_data lines \<noteq> int n) \<and>
         (\<forall>i < length lines.
            (\<forall>l \<in> set (take (Suc i) lines). \<not> startswith l ''CELL_DATA'') \<longrightarrow>
            filter (names_line (int i + 1)) (emitted_errors (validate_vtk_file fs path)) = []) \<and>
         ((\<forall>l \<in> set lines. startswith (strip l) ''CELL_DATA'' \<longrightarrow> l \<noteq> [] \<and> isspace (hd l)) \<longrightarrow>
            find_cell_data lines = - 1 \<and>
            validate_vtk_file fs path =
              (if content = [] then Inl IndexError
               else Inr (if startswith (hd lines) ''# vtk DataFile Version'' then [] else [header_error],
                         check_sections lines [])) \<and>
            filter is_comment_error (emitted_errors (validate_vtk_file fs path)) = [])"
proof (intro conjI allI impI)
  fix n assume n: "n < length lines" and ind: "lines ! n \<noteq> [] \<and> isspace (hd (lines ! n))"
  show "find_cell_data lines \<noteq> int n"
  proof
    assume "find_cell_data lines = int n"
    then have "startswith (lines ! n) ''CELL_DATA''" using n by (rule section_start_is_raw)
    with ind show False using indented_not_section_start by blast
  qed
next
  fix i assume i: "i < length lines"
    and before: "\<forall>l \<in> set (take (Suc i) lines). \<not> startswith l ''CELL_DATA''"
  from first_section_start [of lines]
  show "filter (names_line (int i + 1)) (emitted_errors (validate_vtk_file fs path)) = []"
  proof
    assume none: "\<forall>l \<in> set lines. \<not> startswith l ''CELL_DATA''"
    have "validate_vtk_file fs path =
           (if content = [] then Inl IndexError
            else Inr (if startswith (hd lines) ''# vtk DataFile Version'' then [] else [header_error],
                      check_sections lines []))"
      using assms none by (rule validate_file_no_section)
    then show ?thesis
      by (simp add: emitted_errors_def names_line_header_error)
  next
    assume "\<exists>n < length lines. startswith (lines ! n) ''CELL_DATA'' \<and>
        (\<forall>l \<in> set (take n lines). \<not> startswith l ''CELL_DATA'')"
    then obtain n where n: "n < length lines" "startswith (lines ! n) ''CELL_DATA''"
      "\<forall>l \<in> set (take n lines). \<not> startswith l ''CELL_DATA''" by blast
    have "i < n"
    proof (rule ccontr)
      assume "\<not> i < n"
      with n(1) have "lines ! n \<in> set (take (Suc i) lines)"
        by (auto simp: in_set_conv_nth intro!: exI [of _ n])
      with before n(2) show False by blast
    qed
    moreover have "validate_vtk_file fs path =
           Inr ((if startswith (hd lines) ''# vtk DataFile Version'' then [] else [header_error])
                  @ map (comment_error_at lines) (filter (is_violation lines) [n..<length lines]),
                check_sections lines [])"
      using assms n by (rule validate_file_section)
    ultimately show ?thesis
      by (simp add: emitted_errors_def names_line_errors del: filter_append)
  qed
next
  assume only: "\<forall>l \<in> set lines. startswith (strip l) ''CELL_DATA'' \<longrightarrow> l \<noteq> [] \<and> isspace (hd l)"
  have none: "\<forall>l \<in> set lines. \<not> startswith l ''CELL_DATA''"
  proof
    fix l assume l: "l \<in> set lines"
    show "\<not> startswith l ''CELL_DATA''"
    proof
      assume s: "startswith l ''CELL_DATA''"
      then have "startswith (strip l) ''CELL_DATA''"
        by (intro strip_keeps_prefix) (simp_all add: isspace_def)
      with only l have "l \<noteq> [] \<and> isspace (hd l)" by blast
      with s show False using indented_not_section_start by blast
    qed
  qed
  then show "find_cell_data lines = - 1"
    by (simp add: find_cell_data_def cell_data_scan_none)
  have v: "validate_vtk_file fs path =
           (if content = [] then Inl IndexError
            else Inr (if startswith (hd lines) ''# vtk DataFile Version'' then [] else [header_error],
                      check_sections lines []))"
    using assms none by (rule validate_file_no_section)
  then show "validate_vtk_file fs path =
           (if content = [] then Inl IndexError
            else Inr (if startswith (hd lines) ''# vtk DataFile Version'' then [] else [header_error],
                      check_sections lines []))" .
  from v show "filter is_comment_error (emitted_errors (validate_vtk_file fs path)) = []"
    by (simp add: emitted_errors_def header_error_not_comment_error)
qed

text \<open>
  In the file with both kinds of line the indented line 1 is not the section start and
  the comment on line 2 gets no error; in the file with only an indented line nothing
  is found.
\<close>

theorem indented_cell_data_ignored_witness:
  "(startswith (strip (readlines mixed_text ! 0)) ''CELL_DATA'' \<and>
    startswith (readlines mixed_text ! 2) ''CELL_DATA'' \<and>
    find_cell_data (readlines mixed_text) \<noteq> 0 \<and>
    startswith (strip (readlines mixed_text ! 1)) ''#'' \<and>
    filter (names_line 2) (emitted_errors (validate_vtk_file mixed_fs ''mixed.vtk'')) = []) \<and>
   (startswith (strip (readlines indented_text ! 1)) ''CELL_DATA'' \<and>
    startswith (strip (readlines indented_text ! 2)) ''#'' \<and>
    find_cell_data (readlines indented_text) = - 1 \<and>
    validate_vtk_file example_fs ''indented.vtk'' =
      Inr ([header_error], check_sections (readlines indented_text) []))"
proof -
  note mixed = indented_cell_data_ignored
                 [of mixed_fs "''mixed.vtk''" mixed_text "readlines mixed_text"]
  have m: "mixed_fs ''mixed.vtk'' = Some (File mixed_text)"
    by (simp add: mixed_fs_def)
  from mixed [OF m refl, THEN conjunct1, THEN spec, of 0]
  have a: "find_cell_data (readlines mixed_text) \<noteq> 0"
    by (simp add: readlines_mixed isspace_def)
  from mixed [OF m refl, THEN conjunct2, THEN conjunct1, THEN spec, of 1]
  have b: "filter (names_line 2) (emitted_errors (validate_vtk_file mixed_fs ''mixed.vtk'')) = []"
    by (simp add: readlines_mixed startswith_def)
  have c: "startswith (strip (readlines mixed_text ! 0)) ''CELL_DATA'' \<and>
           startswith (readlines mixed_text ! 2) ''CELL_DATA'' \<and>
           startswith (strip (readlines mixed_text ! 1)) ''#''"
    by (simp add: readlines_mixed startswith_def strip_def isspace_def)
  have d: "startswith (strip (readlines indented_text ! 1)) ''CELL_DATA'' \<and>
    startswith (strip (readlines indented_text ! 2)) ''#'' \<and>
    find_cell_data (readlines indented_text) = - 1 \<and>
    validate_vtk_file example_fs ''indented.vtk'' =
      Inr ([header_error], check_sections (readlines indented_text) [])"
    using indented_cell_data_ignored
          [of example_fs "''indented.vtk''" indented_text "readlines indented_text"]
    by (simp add: example_fs_def readlines_indented startswith_def strip_def isspace_def
        indented_text_nonempty)
  from a b c d show ?thesis by blast
qed

end
